theory Spec2Isabelle
  imports Main "HOL-Library.Word"
begin

section \<open>Buffer: the acquire/commit byte store (core/Buffer.cpp)\<close>

text \<open>
  \<^verbatim>\<open>size_t\<close> is modelled as a 64-bit word, so every addition and subtraction of the
  source wraps as it does in C++. The backing store \<^verbatim>\<open>std::vector<uint8_t> m_buffer\<close>
  is a list of bytes. A pointer into the store (\<^verbatim>\<open>m_buffer.data() + k\<close>) is modelled
  by the index \<open>k\<close>.

  A call can fail in two ways. \<^verbatim>\<open>std::vector::resize\<close> throws \<^verbatim>\<open>std::length_error\<close>
  for a size above \<^verbatim>\<open>max_size()\<close>, which for a vector of bytes with 64-bit pointers is
  \<open>2 ^ 63 - 1\<close>; the exception leaves the vector as it was. A \<^verbatim>\<open>memcpy\<close> or a write
  that leaves the bytes it may touch is undefined behaviour, \<open>out_of_bounds\<close>. An allocation
  of at most \<open>max_size\<close> bytes is taken to succeed.
\<close>

type_synonym byte = "8 word"
type_synonym size_t = "64 word"

datatype failure = length_error | out_of_bounds

definition max_size :: nat where
  "max_size = 2 ^ 63 - 1"

record Buffer =
  m_buffer :: "byte list"
  m_size :: size_t
  m_offset :: size_t
  m_acquiredOffset :: size_t

text \<open>\<^verbatim>\<open>std::vector::size()\<close> and \<^verbatim>\<open>std::vector::resize(n)\<close> (new elements are zero).\<close>

definition vector_size :: "byte list \<Rightarrow> size_t" where
  "vector_size v = of_nat (length v)"

definition vector_resize :: "byte list \<Rightarrow> size_t \<Rightarrow> failure + byte list" where
  "vector_resize v n =
     (if max_size < unat n then Inl length_error
      else Inr (take (unat n) v @ replicate (unat n - length v) 0))"

text \<open>
  Modelled from the spec: core/Buffer.h with the member initialisers is missing. Neither
  constructor assigns \<open>m_offset\<close> or \<open>m_acquiredOffset\<close>; a new buffer's committed
  region starts at the start of the store, so both start at 0.

  \<^verbatim>\<open>Buffer::Buffer(size_t size)\<close>:
\<close>

definition Buffer_new :: "size_t \<Rightarrow> failure + Buffer" where
  "Buffer_new sz =
     (case vector_resize [] sz of
        Inl e \<Rightarrow> Inl e
      | Inr v \<Rightarrow> Inr \<lparr>m_buffer = v, m_size = 0, m_offset = 0, m_acquiredOffset = 0\<rparr>)"

text \<open>
  \<^verbatim>\<open>Buffer::Buffer(const uint8_t* data, size_t size, size_t reservedSize)\<close>: the resize to
  \<^verbatim>\<open>std::max(size, reservedSize)\<close>, then the \<^verbatim>\<open>memcpy\<close> of \<open>size\<close> bytes. The bytes
  behind \<open>data\<close> are the list \<open>src\<close>.
\<close>

definition Buffer_from :: "byte list \<Rightarrow> size_t \<Rightarrow> size_t \<Rightarrow> failure + Buffer" where
  "Buffer_from src sz reservedSize =
     (case vector_resize [] (max sz reservedSize) of
        Inl e \<Rightarrow> Inl e
      | Inr v \<Rightarrow>
          if unat sz \<le> length src
          then Inr \<lparr>m_buffer = take (unat sz) src @ drop (unat sz) v,
                    m_size = sz, m_offset = 0, m_acquiredOffset = 0\<rparr>
          else Inl out_of_bounds)"

text \<open>\<^verbatim>\<open>Buffer::data()\<close> returns \<^verbatim>\<open>m_buffer.data()+m_offset\<close>: the index \<open>m_offset\<close>.\<close>

definition data :: "Buffer \<Rightarrow> nat" where
  "data b = unat (m_offset b)"

text \<open>\<^verbatim>\<open>Buffer::size()\<close>.\<close>

definition size_Buffer :: "Buffer \<Rightarrow> size_t" where
  "size_Buffer b = m_size b"

text \<open>
  What a reader sees through \<^verbatim>\<open>data()\<close> and \<^verbatim>\<open>size()\<close>: the \<open>size()\<close> bytes that
  start at \<open>data()\<close>, as far as the store holds them.
\<close>

definition committed :: "Buffer \<Rightarrow> byte list" where
  "committed b = take (unat (size_Buffer b)) (drop (data b) (m_buffer b))"

text \<open>
  \<^verbatim>\<open>Buffer::acquire(size_t size)\<close>: returns the updated buffer and the index of the
  returned pointer. The first branch returns \<^verbatim>\<open>m_buffer.data()\<close> and assigns nothing.
  In the third branch the resize comes first: when it throws, nothing has been assigned.
\<close>

definition acquire :: "Buffer \<Rightarrow> size_t \<Rightarrow> failure + Buffer \<times> nat" where
  "acquire b sz =
     (if m_offset b \<ge> sz then Inr (b, 0)
      else
        let sizeAtBack = vector_size (m_buffer b) - m_offset b - m_size b in
        if sizeAtBack \<ge> sz then
          (let b1 = b\<lparr>m_acquiredOffset := m_offset b + m_size b\<rparr>
           in Inr (b1, unat (m_acquiredOffset b1)))
        else
          (case vector_resize (m_buffer b) (vector_size (m_buffer b) - sizeAtBack + sz) of
             Inl e \<Rightarrow> Inl e
           | Inr v \<Rightarrow>
               (let b1 = b\<lparr>m_buffer := v\<rparr>;
                    b2 = b1\<lparr>m_acquiredOffset := m_offset b1 + m_size b1\<rparr>
                in Inr (b2, unat (m_acquiredOffset b2)))))"

text \<open>The buffer after a call of \<open>acquire\<close>: as it was when the call throws.\<close>

definition acquire_state :: "Buffer \<Rightarrow> size_t \<Rightarrow> Buffer" where
  "acquire_state b sz = (case acquire b sz of Inl e \<Rightarrow> b | Inr (b1, p) \<Rightarrow> b1)"

text \<open>\<^verbatim>\<open>Buffer::commit(size_t size)\<close>.\<close>

definition commit :: "Buffer \<Rightarrow> size_t \<Rightarrow> Buffer" where
  "commit b sz = b\<lparr>m_offset := m_acquiredOffset b, m_size := sz\<rparr>"

text \<open>The caller's write of the bytes \<open>bs\<close> through a pointer with index \<open>p\<close>.\<close>

definition write_bytes :: "Buffer \<Rightarrow> nat \<Rightarrow> byte list \<Rightarrow> failure + Buffer" where
  "write_bytes b p bs =
     (if p + length bs \<le> length (m_buffer b)
      then Inr (b\<lparr>m_buffer := take p (m_buffer b) @ bs @ drop (p + length bs) (m_buffer b)\<rparr>)
      else Inl out_of_bounds)"

text \<open>
  The write protocol of the spec as one step: \<^verbatim>\<open>p = acquire(n)\<close>, write \<open>n\<close> bytes at
  \<open>p\<close>, \<^verbatim>\<open>commit(n)\<close>.
\<close>

definition acquire_write_commit :: "Buffer \<Rightarrow> byte list \<Rightarrow> failure + Buffer" where
  "acquire_write_commit b bs =
     (case acquire b (of_nat (length bs)) of
        Inl e \<Rightarrow> Inl e
      | Inr (b1, p) \<Rightarrow>
          (case write_bytes b1 p bs of
             Inl e \<Rightarrow> Inl e
           | Inr b2 \<Rightarrow> Inr (commit b2 (of_nat (length bs)))))"

subsection \<open>split\<close>

text \<open>
  \<^verbatim>\<open>Buffer::split<T>(size_t size)\<close>: the loop
  \<^verbatim>\<open>for (size_t i = 0; i < m_size; i += size)\<close> appends
  \<^verbatim>\<open>T(m_buffer.data()+m_offset+i, size)\<close> to the result. \<open>T\<close> is the constructor of the
  chunk type, applied to the index of the pointer and to the size; a construction that
  fails ends the call with that failure. The counter \<open>i\<close> is a \<^verbatim>\<open>size_t\<close> and may wrap,
  so the loop need not end: a run that never returns is \<open>None\<close>.
\<close>

partial_function (option) split_loop ::
  "(nat \<Rightarrow> size_t \<Rightarrow> failure + 't) \<Rightarrow> Buffer \<Rightarrow> size_t \<Rightarrow> size_t \<Rightarrow> 't list
   \<Rightarrow> (failure + 't list) option" where
  "split_loop T b sz i buffers =
     (if i < m_size b
      then (case T (unat (m_offset b) + unat i) sz of
              Inl e \<Rightarrow> Some (Inl e)
            | Inr x \<Rightarrow> split_loop T b sz (i + sz) (buffers @ [x]))
      else Some (Inr buffers))"

definition split ::
  "(nat \<Rightarrow> size_t \<Rightarrow> failure + 't) \<Rightarrow> Buffer \<Rightarrow> size_t \<Rightarrow> (failure + 't list) option" where
  "split T b sz = split_loop T b sz 0 []"

text \<open>
  Modelled from the spec: audio/AudioBuffer.h, the chunk type of the one instantiation
  \<^verbatim>\<open>split<coro::audio::AudioBuffer>\<close>, is not among the sources. The spec describes the
  chunks as fixed-size views of the committed region; the chunk built from a pointer and a
  size is taken to hold the \<open>size\<close> bytes behind the pointer, as the constructor of
  \<open>Buffer\<close> from a pointer and a size does when nothing is reserved. \<open>mem\<close> is the store
  the pointer points into.
\<close>

definition AudioBuffer :: "byte list \<Rightarrow> nat \<Rightarrow> size_t \<Rightarrow> failure + Buffer" where
  "AudioBuffer mem p sz = Buffer_from (drop p mem) sz 0"

definition split_AudioBuffer :: "Buffer \<Rightarrow> size_t \<Rightarrow> (failure + Buffer list) option" where
  "split_AudioBuffer b sz = split (AudioBuffer (m_buffer b)) b sz"

text \<open>The number of chunks of a round-up policy: \<open>a / c\<close> rounded up.\<close>

definition ceil_div :: "nat \<Rightarrow> nat \<Rightarrow> nat" where
  "ceil_div a c = (a + c - 1) div c"

subsection \<open>Well-formed states and call sequences\<close>

text \<open>
  Every \<^verbatim>\<open>std::vector\<close> holds at most \<open>max_size\<close> elements. The committed region is
  contained in the store when \<open>m_offset + m_size\<close> does not exceed the store's size.
\<close>

definition representable :: "Buffer \<Rightarrow> bool" where
  "representable b \<longleftrightarrow> length (m_buffer b) \<le> max_size"

definition contained :: "Buffer \<Rightarrow> bool" where
  "contained b \<longleftrightarrow> unat (m_offset b) + unat (m_size b) \<le> length (m_buffer b)"

text \<open>
  A sequence of calls on one buffer, run from left to right. An \<open>acquire\<close> that throws
  leaves the buffer as it was, and the sequence goes on.
\<close>

datatype op = Acquire size_t | Commit size_t

fun apply_op :: "Buffer \<Rightarrow> op \<Rightarrow> Buffer" where
  "apply_op b (Acquire n) = acquire_state b n"
| "apply_op b (Commit n) = commit b n"

definition run :: "Buffer \<Rightarrow> op list \<Rightarrow> Buffer" where
  "run b ops = foldl apply_op b ops"

text \<open>
  The calling discipline under which containment is kept. Every \<open>acquire(m)\<close> that does
  not take the front (\<open>m\<close> exceeds \<open>m_offset\<close>) has \<open>m_offset + m_size + m\<close> within
  \<^verbatim>\<open>size_t\<close>. Every \<open>commit(n)\<close> directly follows an \<open>acquire(m)\<close> that did not take
  the front and did not throw, and \<open>n \<le> m\<close>. \<open>pending\<close> is the size handed out by such
  an acquire when it is the call directly before.
\<close>

fun well_used :: "Buffer \<Rightarrow> size_t option \<Rightarrow> op list \<Rightarrow> bool" where
  "well_used b pending [] = True"
| "well_used b pending (Acquire m # ops) =
     ((m \<le> m_offset b \<or> unat (m_offset b) + unat (m_size b) + unat m < 2 ^ 64)
      \<and> well_used (acquire_state b m)
           (case acquire b m of
              Inl e \<Rightarrow> None
            | Inr r \<Rightarrow> if m \<le> m_offset b then None else Some m) ops)"
| "well_used b pending (Commit n # ops) =
     (case pending of None \<Rightarrow> False
      | Some m \<Rightarrow> n \<le> m \<and> well_used (commit b n) None ops)"

definition buffer_inv :: "Buffer \<Rightarrow> size_t option \<Rightarrow> bool" where
  "buffer_inv b pending \<longleftrightarrow>
     representable b \<and> contained b \<and>
     (case pending of None \<Rightarrow> True
      | Some m \<Rightarrow> unat (m_acquiredOffset b) + unat m \<le> length (m_buffer b))"

section \<open>Node: capability check and linking (core/Node.h)\<close>

text \<open>
  \<^verbatim>\<open>Node::canIntersect(const T& in, const T& out)\<close>: two nested range-for loops that
  return \<open>true\<close> at the first pair with \<^verbatim>\<open>Caps::intersect(i, o).isValid()\<close>.
  core/Caps.h is not among the sources: \<open>intersect\<close> and \<open>isValid\<close> are parameters, and a
  capability set is the list of its elements in declaration order. \<open>canIntersect_row\<close> is
  the inner loop; its result \<open>True\<close> is the \<^verbatim>\<open>return true\<close>.
\<close>

fun canIntersect_row :: "('c \<Rightarrow> 'c \<Rightarrow> 'c) \<Rightarrow> ('c \<Rightarrow> bool) \<Rightarrow> 'c \<Rightarrow> 'c list \<Rightarrow> bool" where
  "canIntersect_row intersect isValid i [] = False"
| "canIntersect_row intersect isValid i (out # outs) =
     (if isValid (intersect i out) then True
      else canIntersect_row intersect isValid i outs)"

fun canIntersect :: "('c \<Rightarrow> 'c \<Rightarrow> 'c) \<Rightarrow> ('c \<Rightarrow> bool) \<Rightarrow> 'c list \<Rightarrow> 'c list \<Rightarrow> bool" where
  "canIntersect intersect isValid [] outs = False"
| "canIntersect intersect isValid (i # ins) outs =
     (if canIntersect_row intersect isValid i outs then True
      else canIntersect intersect isValid ins outs)"

text \<open>
  The same two loops, recording instead of the result the pairs handed to
  \<^verbatim>\<open>Caps::intersect\<close>, in the order of the calls.
\<close>

fun row_calls :: "('c \<Rightarrow> 'c \<Rightarrow> 'c) \<Rightarrow> ('c \<Rightarrow> bool) \<Rightarrow> 'c \<Rightarrow> 'c list \<Rightarrow> ('c \<times> 'c) list" where
  "row_calls intersect isValid i [] = []"
| "row_calls intersect isValid i (out # outs) =
     (i, out) # (if isValid (intersect i out) then []
                 else row_calls intersect isValid i outs)"

fun canIntersect_calls ::
  "('c \<Rightarrow> 'c \<Rightarrow> 'c) \<Rightarrow> ('c \<Rightarrow> bool) \<Rightarrow> 'c list \<Rightarrow> 'c list \<Rightarrow> ('c \<times> 'c) list" where
  "canIntersect_calls intersect isValid [] outs = []"
| "canIntersect_calls intersect isValid (i # ins) outs =
     row_calls intersect isValid i outs @
     (if canIntersect_row intersect isValid i outs then []
      else canIntersect_calls intersect isValid ins outs)"

text \<open>A list up to and including its first element that satisfies \<open>P\<close>.\<close>

fun upto_first :: "('a \<Rightarrow> bool) \<Rightarrow> 'a list \<Rightarrow> 'a list" where
  "upto_first P [] = []"
| "upto_first P (x # xs) = x # (if P x then [] else upto_first P xs)"

text \<open>
  A node holds the pointer \<open>m_next\<close> (\<open>None\<close> is \<^verbatim>\<open>nullptr\<close>); \<open>outCaps\<close> and
  \<open>inCaps\<close> are the static capability sets of the node's class. Nodes live in a store
  from addresses to nodes.
\<close>

record 'c Node =
  outCaps :: "'c list"
  inCaps :: "'c list"
  m_next :: "nat option"

text \<open>
  \<^verbatim>\<open>Node::link(Node1& prev, Node2& next)\<close>. Its return type is
  \<^verbatim>\<open>std::enable_if_t<... && canIntersect(Node1::outCaps(), Node2::inCaps()), void>\<close>, so
  the function exists only for node classes that pass the check: a call that does not pass
  it has no \<open>link\<close> to call, which is \<open>None\<close>. Both references denote nodes of the store.
\<close>

definition link ::
  "('c \<Rightarrow> 'c \<Rightarrow> 'c) \<Rightarrow> ('c \<Rightarrow> bool) \<Rightarrow> (nat \<Rightarrow> 'c Node option) \<Rightarrow> nat \<Rightarrow> nat
   \<Rightarrow> (nat \<Rightarrow> 'c Node option) option" where
  "link intersect isValid h prev nxt =
     (case (h prev, h nxt) of
        (Some p, Some n) \<Rightarrow>
          if canIntersect intersect isValid (outCaps p) (inCaps n)
          then Some (h(prev \<mapsto> p\<lparr>m_next := Some nxt\<rparr>))
          else None
      | _ \<Rightarrow> None)"

section \<open>AlsaSink: stopping the device (audio/AlsaSink.cpp)\<close>

text \<open>
  The sink holds the device handle \<open>m_pcm\<close> (\<open>None\<close> is \<^verbatim>\<open>nullptr\<close>), the device name
  and the current configuration. The calls into ALSA and into the logger are the effects of
  a member function, listed in the order they are made.
\<close>

datatype verbosity = INFO | WARNING | ERROR

datatype alsa_effect = snd_pcm_drain nat | snd_pcm_close nat | LOG_F verbosity string

record 'conf AlsaSink =
  m_pcm :: "nat option"
  m_device :: string
  m_conf :: 'conf

text \<open>\<^verbatim>\<open>AlsaSink::onStop()\<close>.\<close>

definition onStop :: "'conf AlsaSink \<Rightarrow> 'conf AlsaSink \<times> alsa_effect list" where
  "onStop s =
     (case m_pcm s of
        Some pcm \<Rightarrow> (s\<lparr>m_pcm := None\<rparr>,
                     [snd_pcm_drain pcm, snd_pcm_close pcm, LOG_F INFO ''Device flushed''])
      | None \<Rightarrow> (s, [LOG_F INFO ''Device flushed'']))"

section \<open>Properties of the Buffer\<close>

subsection \<open>Arithmetic of sizes\<close>

lemma max_size_less: "max_size < 2 ^ 64"
  by (simp add: max_size_def)

lemma vector_resize_ok:
  "unat n \<le> max_size \<Longrightarrow>
   vector_resize v n = Inr (take (unat n) v @ replicate (unat n - length v) 0)"
  by (simp add: vector_resize_def)

lemma vector_resize_throws:
  "max_size < unat n \<Longrightarrow> vector_resize v n = Inl length_error"
  by (simp add: vector_resize_def)

lemma vector_resize_length:
  "vector_resize v n = Inr w \<Longrightarrow> length w = unat n \<and> unat n \<le> max_size"
  by (auto simp: vector_resize_def split: if_splits)

lemma vector_resize_grow:
  "length v \<le> unat n \<Longrightarrow> unat n \<le> max_size \<Longrightarrow>
   vector_resize v n = Inr (v @ replicate (unat n - length v) 0)"
  by (simp add: vector_resize_def)

lemma vector_resize_nth:
  assumes "vector_resize v k = Inr w" and "i < length v" and "i < length w"
  shows "w ! i = v ! i"
proof -
  have w: "w = take (unat k) v @ replicate (unat k - length v) 0"
    using assms(1) by (auto simp: vector_resize_def split: if_splits)
  have "i < unat k" using assms(3) w by simp
  then show ?thesis using assms(2) by (simp add: w nth_append)
qed

lemma unat_vector_size: "length v \<le> max_size \<Longrightarrow> unat (vector_size v) = length v"
  using max_size_less by (simp add: vector_size_def unat_of_nat)

text \<open>The size the third branch of \<open>acquire\<close> resizes to, in \<^verbatim>\<open>size_t\<close> arithmetic.\<close>

lemma grow_target: "vector_size v - (vector_size v - off - sz) + n = off + sz + n"
  by simp

lemma unat_sizeAtBack:
  assumes "length v \<le> max_size" and "unat (off :: size_t) + unat (sz :: size_t) \<le> length v"
  shows "unat (vector_size v - off - sz) = length v - unat off - unat sz"
proof -
  have c: "unat (vector_size v) = length v" using assms(1) by (rule unat_vector_size)
  have "off \<le> vector_size v" using assms(2) c by (simp add: word_le_nat_alt)
  then have 1: "unat (vector_size v - off) = length v - unat off"
    using c by (simp add: unat_sub)
  have "sz \<le> vector_size v - off" using assms(2) 1 by (simp add: word_le_nat_alt)
  then show ?thesis using 1 by (simp add: unat_sub)
qed

lemma unat_end:
  assumes "unat (off :: size_t) + unat (sz :: size_t) < 2 ^ 64"
  shows "unat (off + sz) = unat off + unat sz"
  using assms by (simp add: unat_add_lem [THEN iffD1])

lemma unat_end3:
  assumes "unat (off :: size_t) + unat (sz :: size_t) + unat (n :: size_t) < 2 ^ 64"
  shows "unat (off + sz + n) = unat off + unat sz + unat n"
proof -
  have "unat (off + sz) = unat off + unat sz" using assms by (simp add: unat_end)
  then show ?thesis using assms by (simp add: unat_end)
qed

text \<open>
  When the committed region has left the store, the subtraction for \<open>sizeAtBack\<close> wraps to
  a value that no request within \<^verbatim>\<open>size_t\<close> exceeds.
\<close>

lemma sizeAtBack_wrapped:
  assumes r: "length v \<le> max_size"
    and out: "length v < unat (off :: size_t) + unat (sz :: size_t)"
    and fit: "unat off + unat sz + unat (n :: size_t) < 2 ^ 64"
  shows "n \<le> vector_size v - off - sz"
proof -
  have c: "unat (vector_size v) = length v" using r by (rule unat_vector_size)
  have e: "unat (off + sz) = unat off + unat sz" using fit by (simp add: unat_end)
  have d: "vector_size v - off - sz = vector_size v - (off + sz)"
    by (simp only: diff_diff_add)
  have "unat (vector_size v - (off + sz)) = length v + 2 ^ 64 - (unat off + unat sz)"
    using out c e by (simp add: unat_sub_if_size word_size)
  then have "unat n \<le> unat (vector_size v - (off + sz))"
    using fit by simp
  then show ?thesis unfolding d by (simp only: word_le_nat_alt)
qed

lemma committed_append:
  "unat (m_offset b) + unat (m_size b) \<le> length (m_buffer b) \<Longrightarrow>
   committed (b\<lparr>m_buffer := m_buffer b @ zs, m_acquiredOffset := a\<rparr>) = committed b"
  by (simp add: committed_def data_def size_Buffer_def)

text \<open>The three ways a call of \<open>acquire\<close> ends.\<close>

lemma acquire_cases:
  obtains (kept) a where "acquire_state b n = b\<lparr>m_acquiredOffset := a\<rparr>"
  | (resized) w where "\<not> n \<le> m_offset b"
      and "\<not> n \<le> vector_size (m_buffer b) - m_offset b - m_size b"
      and "vector_resize (m_buffer b) (m_offset b + m_size b + n) = Inr w"
      and "acquire b n = Inr (b\<lparr>m_buffer := w, m_acquiredOffset := m_offset b + m_size b\<rparr>,
                              unat (m_offset b + m_size b))"
      and "acquire_state b n = b\<lparr>m_buffer := w, m_acquiredOffset := m_offset b + m_size b\<rparr>"
proof (cases "n \<le> m_offset b")
  case True
  then have "acquire_state b n = b\<lparr>m_acquiredOffset := m_acquiredOffset b\<rparr>"
    by (simp add: acquire_state_def acquire_def)
  then show ?thesis by (rule kept)
next
  case front: False
  show ?thesis
  proof (cases "n \<le> vector_size (m_buffer b) - m_offset b - m_size b")
    case True
    then have "acquire_state b n = b\<lparr>m_acquiredOffset := m_offset b + m_size b\<rparr>"
      using front by (simp add: acquire_state_def acquire_def Let_def)
    then show ?thesis by (rule kept)
  next
    case nb: False
    show ?thesis
    proof (cases "vector_resize (m_buffer b) (m_offset b + m_size b + n)")
      case (Inl e)
      then have "acquire_state b n = b\<lparr>m_acquiredOffset := m_acquiredOffset b\<rparr>"
        using front nb by (simp add: acquire_state_def acquire_def Let_def)
      then show ?thesis by (rule kept)
    next
      case (Inr w)
      then have "acquire b n = Inr (b\<lparr>m_buffer := w, m_acquiredOffset := m_offset b + m_size b\<rparr>,
                              unat (m_offset b + m_size b))"
        using front nb by (simp add: acquire_def Let_def)
      then show ?thesis using front nb Inr
        by (intro resized [of w]) (simp_all add: acquire_state_def)
    qed
  qed
qed

lemma acquire_keeps_bytes:
  assumes "i < length (m_buffer b)" and "i < length (m_buffer (acquire_state b n))"
  shows "m_buffer (acquire_state b n) ! i = m_buffer b ! i"
proof (cases rule: acquire_cases [of b n])
  case (kept a)
  then show ?thesis by simp
next
  case (resized w)
  then show ?thesis using assms vector_resize_nth [of "m_buffer b" _ w i] by simp
qed

lemma acquire_keeps_committed:
  assumes r: "length (m_buffer b) \<le> max_size"
    and fit: "unat (m_offset b) + unat (m_size b) + unat n < 2 ^ 64"
  shows "committed (acquire_state b n) = committed b"
proof (cases rule: acquire_cases [of b n])
  case (kept a)
  then show ?thesis by (simp add: committed_def data_def size_Buffer_def)
next
  case (resized w)
  have c: "unat (m_offset b) + unat (m_size b) \<le> length (m_buffer b)"
  proof (rule ccontr)
    assume "\<not> ?thesis"
    then have "n \<le> vector_size (m_buffer b) - m_offset b - m_size b"
      using r fit by (intro sizeAtBack_wrapped) simp_all
    then show False using resized(2) by simp
  qed
  have s: "unat (vector_size (m_buffer b) - m_offset b - m_size b)
           = length (m_buffer b) - unat (m_offset b) - unat (m_size b)"
    using r c by (rule unat_sizeAtBack)
  have t: "unat (m_offset b + m_size b + n) = unat (m_offset b) + unat (m_size b) + unat n"
    using fit by (rule unat_end3)
  have "length (m_buffer b) - unat (m_offset b) - unat (m_size b) < unat n"
    using resized(2) s by (simp add: word_le_nat_alt)
  then have g: "length (m_buffer b) \<le> unat (m_offset b + m_size b + n)"
    using c t by simp
  have "unat (m_offset b + m_size b + n) \<le> max_size"
    using resized(3) by (auto dest: vector_resize_length)
  then have "w = m_buffer b @ replicate (unat (m_offset b + m_size b + n) - length (m_buffer b)) 0"
    using resized(3) g by (simp add: vector_resize_grow)
  then show ?thesis using resized(5) committed_append [OF c] by simp
qed

subsection \<open>The invariant behind containment\<close>

lemma buffer_inv_new:
  assumes "Buffer_new sz = Inr b"
  shows "buffer_inv b None"
proof -
  obtain v where v: "vector_resize [] sz = Inr v"
    and b: "b = \<lparr>m_buffer = v, m_size = 0, m_offset = 0, m_acquiredOffset = 0\<rparr>"
    using assms by (auto simp: Buffer_new_def split: sum.splits)
  have "length v \<le> max_size" using v by (auto dest: vector_resize_length)
  then show ?thesis
    by (simp add: buffer_inv_def representable_def contained_def b)
qed

lemma buffer_inv_from:
  assumes "Buffer_from src sz r = Inr b"
  shows "buffer_inv b None"
proof -
  obtain v where v: "vector_resize [] (max sz r) = Inr v"
    and le: "unat sz \<le> length src"
    and b: "b = \<lparr>m_buffer = take (unat sz) src @ drop (unat sz) v,
                  m_size = sz, m_offset = 0, m_acquiredOffset = 0\<rparr>"
    using assms by (auto simp: Buffer_from_def split: sum.splits if_splits)
  have lv: "length v = unat (max sz r)" and ms: "unat (max sz r) \<le> max_size"
    using v by (auto dest: vector_resize_length)
  have m: "unat sz \<le> unat (max sz r)" by (simp add: word_le_nat_alt [symmetric])
  have len: "length (m_buffer b) = unat (max sz r)"
    using le m lv by (simp add: b)
  show ?thesis using len m ms
    by (simp add: buffer_inv_def representable_def contained_def) (simp add: b)
qed

lemma buffer_inv_acquire:
  assumes inv: "buffer_inv b pending"
    and fit: "m \<le> m_offset b \<or> unat (m_offset b) + unat (m_size b) + unat m < 2 ^ 64"
  shows "buffer_inv (acquire_state b m)
           (case acquire b m of
              Inl e \<Rightarrow> None
            | Inr r \<Rightarrow> if m \<le> m_offset b then None else Some m)"
proof -
  have r: "length (m_buffer b) \<le> max_size"
    and c: "unat (m_offset b) + unat (m_size b) \<le> length (m_buffer b)"
    using inv by (simp_all add: buffer_inv_def representable_def contained_def)
  have e: "unat (m_offset b + m_size b) = unat (m_offset b) + unat (m_size b)"
    using r c max_size_less by (simp add: unat_end)
  have s: "unat (vector_size (m_buffer b) - m_offset b - m_size b)
           = length (m_buffer b) - unat (m_offset b) - unat (m_size b)"
    using r c by (rule unat_sizeAtBack)
  show ?thesis
  proof (cases "m \<le> m_offset b")
    case True
    then show ?thesis using r c
      by (simp add: acquire_state_def acquire_def buffer_inv_def representable_def contained_def)
  next
    case front: False
    then have v: "unat (m_offset b) + unat (m_size b) + unat m < 2 ^ 64" using fit by simp
    show ?thesis
    proof (cases "m \<le> vector_size (m_buffer b) - m_offset b - m_size b")
      case True
      then have "unat m \<le> length (m_buffer b) - unat (m_offset b) - unat (m_size b)"
        using s by (simp add: word_le_nat_alt)
      then show ?thesis using front True r c e
        by (simp add: acquire_state_def acquire_def Let_def buffer_inv_def representable_def
            contained_def)
    next
      case nb: False
      have t: "unat (m_offset b + m_size b + m) = unat (m_offset b) + unat (m_size b) + unat m"
        using v by (rule unat_end3)
      show ?thesis
      proof (cases "vector_resize (m_buffer b) (m_offset b + m_size b + m)")
        case (Inl x)
        then show ?thesis using front nb r c
          by (simp add: acquire_state_def acquire_def Let_def buffer_inv_def representable_def
              contained_def)
      next
        case (Inr w)
        then have "length w = unat (m_offset b + m_size b + m)"
          and "unat (m_offset b + m_size b + m) \<le> max_size"
          by (auto dest: vector_resize_length)
        then show ?thesis using front nb Inr e t
          by (simp add: acquire_state_def acquire_def Let_def buffer_inv_def representable_def
              contained_def)
      qed
    qed
  qed
qed

lemma buffer_inv_commit:
  assumes "buffer_inv b (Some m)" and "n \<le> m"
  shows "buffer_inv (commit b n) None"
proof -
  have "unat n \<le> unat m" using assms(2) by (simp add: word_le_nat_alt)
  then show ?thesis using assms(1)
    by (simp add: buffer_inv_def representable_def contained_def commit_def)
qed

lemma well_used_preserves:
  "buffer_inv b pending \<Longrightarrow> well_used b pending ops \<Longrightarrow> \<exists>p. buffer_inv (run b ops) p"
proof (induction ops arbitrary: b pending)
  case Nil
  then show ?case by (auto simp: run_def)
next
  case (Cons x ops)
  show ?case
  proof (cases x)
    case (Acquire m)
    let ?p = "case acquire b m of Inl e \<Rightarrow> None
              | Inr r \<Rightarrow> if m \<le> m_offset b then None else Some m"
    have "buffer_inv (acquire_state b m) ?p"
      using Cons.prems Acquire by (intro buffer_inv_acquire) auto
    moreover have "well_used (acquire_state b m) ?p ops"
      using Cons.prems Acquire by simp
    ultimately have "\<exists>p. buffer_inv (run (acquire_state b m) ops) p" by (rule Cons.IH)
    then show ?thesis using Acquire by (simp add: run_def)
  next
    case (Commit n)
    then obtain m where p: "pending = Some m" and le: "n \<le> m"
      and w: "well_used (commit b n) None ops"
      using Cons.prems(2) by (auto split: option.splits)
    have "buffer_inv (commit b n) None" using Cons.prems(1) p le by (auto intro: buffer_inv_commit)
    then have "\<exists>p. buffer_inv (run (commit b n) ops) p" using w by (rule Cons.IH)
    then show ?thesis using Commit by (simp add: run_def)
  qed
qed

text \<open>
  The bound on the store is no restriction: every buffer that a constructor, any calls of
  \<open>acquire\<close> and \<open>commit\<close> and any writes produce holds at most \<open>max_size\<close> bytes.
\<close>

lemma representable_acquire_state:
  assumes "representable b"
  shows "representable (acquire_state b n)"
proof (cases rule: acquire_cases [of b n])
  case (kept a)
  then show ?thesis using assms by (simp add: representable_def)
next
  case (resized w)
  have "length w \<le> max_size" using resized(3) by (auto dest: vector_resize_length)
  then show ?thesis using resized(5) by (simp add: representable_def)
qed

lemma representable_write_bytes:
  assumes "representable b" and "write_bytes b p bs = Inr b'"
  shows "representable b'"
  using assms by (auto simp: write_bytes_def representable_def split: if_splits)

lemma representable_run:
  "representable b \<Longrightarrow> representable (run b ops)"
proof (induction ops arbitrary: b)
  case Nil
  then show ?case by (simp add: run_def)
next
  case (Cons x ops)
  have "representable (apply_op b x)"
    using Cons.prems by (cases x) (simp_all add: representable_acquire_state, simp add: representable_def commit_def)
  then have "representable (run (apply_op b x) ops)" by (rule Cons.IH)
  then show ?case by (simp add: run_def)
qed

lemma representable_constructed:
  assumes "Buffer_new sz = Inr b0 \<or> Buffer_from src sz r = Inr b0"
  shows "representable (run b0 ops)"
proof -
  have "buffer_inv b0 None" using assms buffer_inv_new buffer_inv_from by blast
  then have "representable b0" by (simp add: buffer_inv_def)
  then show ?thesis by (rule representable_run)
qed


subsection \<open>Evaluation at concrete buffers\<close>

lemmas buffer_simps = Buffer_new_def Buffer_from_def acquire_state_def acquire_def commit_def write_bytes_def
  acquire_write_commit_def committed_def data_def size_Buffer_def vector_resize_def vector_size_def
  max_size_def run_def contained_def Let_def

lemma r2: "replicate 2 (0 :: byte) = [0, 0]" by (simp add: numeral_2_eq_2)
lemma r3: "replicate 3 (0 :: byte) = [0, 0, 0]" by (simp add: numeral_3_eq_3)
lemma r4: "replicate 4 (0 :: byte) = [0, 0, 0, 0]" by code_simp

subsection \<open>The write protocol on space after the committed region\<close>

text \<open>
  When \<open>acquire\<close> takes its second or third branch and the reserved space ends within
  \<open>max_size\<close>, the round-trip of acquire, write and commit publishes exactly the written
  bytes and leaves the bytes in front of the reserved space as they were.
\<close>

lemma acquire_after_region:
  assumes r: "length (m_buffer b) \<le> max_size"
    and c: "unat (m_offset b) + unat (m_size b) \<le> length (m_buffer b)"
    and f: "unat (m_offset b) < unat n"
    and v: "unat (m_offset b) + unat (m_size b) + unat n \<le> max_size"
  shows "\<exists>zs. acquire b n =
           Inr (b\<lparr>m_buffer := m_buffer b @ zs, m_acquiredOffset := m_offset b + m_size b\<rparr>,
                unat (m_offset b) + unat (m_size b))
         \<and> unat (m_offset b) + unat (m_size b) + unat n \<le> length (m_buffer b @ zs)"
proof -
  have e: "unat (m_offset b + m_size b) = unat (m_offset b) + unat (m_size b)"
    using r c max_size_less by (simp add: unat_end)
  have s: "unat (vector_size (m_buffer b) - m_offset b - m_size b)
           = length (m_buffer b) - unat (m_offset b) - unat (m_size b)"
    using r c by (rule unat_sizeAtBack)
  have t: "unat (m_offset b + m_size b + n) = unat (m_offset b) + unat (m_size b) + unat n"
    using v max_size_less by (intro unat_end3) simp
  have nf: "\<not> n \<le> m_offset b" using f by (simp add: word_le_nat_alt)
  show ?thesis
  proof (cases "n \<le> vector_size (m_buffer b) - m_offset b - m_size b")
    case True
    then have "unat n \<le> length (m_buffer b) - unat (m_offset b) - unat (m_size b)"
      using s by (simp add: word_le_nat_alt)
    then have "unat (m_offset b) + unat (m_size b) + unat n \<le> length (m_buffer b @ [])"
      using c by simp
    moreover have "acquire b n =
           Inr (b\<lparr>m_buffer := m_buffer b @ [], m_acquiredOffset := m_offset b + m_size b\<rparr>,
                unat (m_offset b) + unat (m_size b))"
      using nf True e by (simp add: acquire_def Let_def)
    ultimately show ?thesis by blast
  next
    case False
    then have "length (m_buffer b) - unat (m_offset b) - unat (m_size b) < unat n"
      using s by (simp add: word_le_nat_alt)
    then have g: "length (m_buffer b) \<le> unat (m_offset b + m_size b + n)"
      using c t by simp
    let ?zs = "replicate (unat (m_offset b + m_size b + n) - length (m_buffer b)) (0 :: byte)"
    have "vector_resize (m_buffer b) (m_offset b + m_size b + n) = Inr (m_buffer b @ ?zs)"
      using g v t by (simp add: vector_resize_grow)
    then have "acquire b n =
           Inr (b\<lparr>m_buffer := m_buffer b @ ?zs, m_acquiredOffset := m_offset b + m_size b\<rparr>,
                unat (m_offset b) + unat (m_size b))"
      using nf False e by (simp add: acquire_def Let_def)
    moreover have "unat (m_offset b) + unat (m_size b) + unat n \<le> length (m_buffer b @ ?zs)"
      using g t by simp
    ultimately show ?thesis by blast
  qed
qed

lemma window_read: "length xs = p \<Longrightarrow> take (length bs) (drop p (xs @ bs @ ys)) = bs"
  by simp

lemma roundtrip_after_region:
  assumes r: "length (m_buffer b) \<le> max_size"
    and c: "unat (m_offset b) + unat (m_size b) \<le> length (m_buffer b)"
    and f: "unat (m_offset b) < length bs"
    and v: "unat (m_offset b) + unat (m_size b) + length bs \<le> max_size"
  shows "\<exists>b'. acquire_write_commit b bs = Inr b'
           \<and> size_Buffer b' = of_nat (length bs)
           \<and> committed b' = bs
           \<and> take (unat (m_offset b) + unat (m_size b)) (m_buffer b')
             = take (unat (m_offset b) + unat (m_size b)) (m_buffer b)"
proof -
  let ?n = "of_nat (length bs) :: size_t"
  let ?p = "unat (m_offset b) + unat (m_size b)"
  have n: "unat ?n = length bs" using v max_size_less by (simp add: unat_of_nat)
  have e: "unat (m_offset b + m_size b) = ?p"
    using r c max_size_less by (simp add: unat_end)
  obtain zs where a: "acquire b ?n =
           Inr (b\<lparr>m_buffer := m_buffer b @ zs, m_acquiredOffset := m_offset b + m_size b\<rparr>, ?p)"
    and len: "?p + length bs \<le> length (m_buffer b @ zs)"
    using acquire_after_region [OF r c, of ?n] f v n by auto
  let ?b' = "\<lparr>m_buffer = take ?p (m_buffer b @ zs) @ bs @ drop (?p + length bs) (m_buffer b @ zs),
              m_size = ?n, m_offset = m_offset b + m_size b,
              m_acquiredOffset = m_offset b + m_size b\<rparr>"
  have 1: "acquire_write_commit b bs = Inr ?b'"
    using a len by (simp add: acquire_write_commit_def write_bytes_def commit_def)
  have lp: "length (take ?p (m_buffer b @ zs)) = ?p" using c by simp
  have 2: "committed ?b' = bs"
    using window_read [OF lp]
    by (simp add: committed_def data_def size_Buffer_def e n del: take_append drop_append)
  have 3: "take ?p (m_buffer ?b') = take ?p (m_buffer b)"
    using c by simp
  have 4: "size_Buffer ?b' = ?n" by (simp add: size_Buffer_def)
  show ?thesis using 1 2 3 4 by blast
qed

text \<open>
  After an \<open>acquire\<close> that takes its first branch, \<open>commit\<close> publishes the offset of an
  earlier acquire: the committed region can then leave the store although no more is
  committed than was acquired.
\<close>

lemma front_branch_breaks_containment:
  "Buffer_new 0 = Inr \<lparr>m_buffer = [], m_size = 0, m_offset = 0, m_acquiredOffset = 0\<rparr>
   \<and> well_used \<lparr>m_buffer = [], m_size = 0, m_offset = 0, m_acquiredOffset = 0\<rparr> None
       [Acquire 2, Commit 2, Acquire 3, Commit 2, Acquire 3, Commit 2]
   \<and> run \<lparr>m_buffer = [], m_size = 0, m_offset = 0, m_acquiredOffset = 0\<rparr>
       [Acquire 2, Commit 2, Acquire 3, Commit 2, Acquire 3, Commit 2] =
       \<lparr>m_buffer = [0, 0, 0, 0, 0, 0, 0], m_size = 2, m_offset = 4, m_acquiredOffset = 4\<rparr>
   \<and> acquire \<lparr>m_buffer = [0, 0, 0, 0, 0, 0, 0], m_size = 2, m_offset = 4, m_acquiredOffset = 4\<rparr> 4 =
       Inr (\<lparr>m_buffer = [0, 0, 0, 0, 0, 0, 0], m_size = 2, m_offset = 4, m_acquiredOffset = 4\<rparr>, 0)
   \<and> \<not> contained (commit
          \<lparr>m_buffer = [0, 0, 0, 0, 0, 0, 0], m_size = 2, m_offset = 4, m_acquiredOffset = 4\<rparr> 4)"
  by (simp add: buffer_simps word_le_nat_alt r2 r3)

text \<open>
  An \<open>acquire\<close> whose request makes \<open>m_offset + m_size + n\<close> wrap cuts the store below
  the end of the committed region, without any \<open>commit\<close>.
\<close>

lemma acquire_wrap_breaks_containment:
  "contained \<lparr>m_buffer = [1, 2], m_size = 2, m_offset = 0, m_acquiredOffset = 0\<rparr>
   \<and> run \<lparr>m_buffer = [1, 2], m_size = 2, m_offset = 0, m_acquiredOffset = 0\<rparr>
        [Acquire 18446744073709551615] =
      \<lparr>m_buffer = [1], m_size = 2, m_offset = 0, m_acquiredOffset = 2\<rparr>
   \<and> \<not> contained \<lparr>m_buffer = [1], m_size = 2, m_offset = 0, m_acquiredOffset = 2\<rparr>"
  by (simp add: buffer_simps)

subsection \<open>The claims about acquire and commit\<close>

text \<open>
  C1 (write round-trip). The claim asks that acquire(n), a write of n bytes at the returned
  pointer and commit(n) leave \<open>data()\<close> showing exactly the written bytes. The first branch
  of \<open>acquire\<close> hands out the front of the store without assigning \<open>m_acquiredOffset\<close>,
  while both other branches assign it; \<open>commit\<close> then publishes the stale offset. At the
  buffer made from the bytes 1, 2, after a first round-trip of 3, 4, 5, 6 (which moves the
  committed region to offset 2), the round-trip of 9, 9 takes that first branch: the bytes
  are written at index 0, the committed region stays at offset 2, and \<open>data()\<close> shows
  3, 4 instead of 9, 9.
\<close>

theorem acquire_front_roundtrip_fails:
  "Buffer_from [1, 2] 2 0 =
     Inr \<lparr>m_buffer = [1, 2], m_size = 2, m_offset = 0, m_acquiredOffset = 0\<rparr>
   \<and> acquire_write_commit
         \<lparr>m_buffer = [1, 2], m_size = 2, m_offset = 0, m_acquiredOffset = 0\<rparr> [3, 4, 5, 6] =
     Inr \<lparr>m_buffer = [1, 2, 3, 4, 5, 6], m_size = 4, m_offset = 2, m_acquiredOffset = 2\<rparr>
   \<and> acquire
         \<lparr>m_buffer = [1, 2, 3, 4, 5, 6], m_size = 4, m_offset = 2, m_acquiredOffset = 2\<rparr> 2 =
     Inr (\<lparr>m_buffer = [1, 2, 3, 4, 5, 6], m_size = 4, m_offset = 2, m_acquiredOffset = 2\<rparr>, 0)
   \<and> acquire_write_commit
         \<lparr>m_buffer = [1, 2, 3, 4, 5, 6], m_size = 4, m_offset = 2, m_acquiredOffset = 2\<rparr> [9, 9] =
     Inr \<lparr>m_buffer = [9, 9, 3, 4, 5, 6], m_size = 2, m_offset = 2, m_acquiredOffset = 2\<rparr>
   \<and> committed
         \<lparr>m_buffer = [9, 9, 3, 4, 5, 6], m_size = 2, m_offset = 2, m_acquiredOffset = 2\<rparr> = [3, 4]"
  by (simp add: buffer_simps)

text \<open>
  C2 (acquire preference order). As stated, for every request \<open>n\<close>, the claim fails
  where \<open>o + s + n\<close> leaves \<^verbatim>\<open>size_t\<close>. For the buffer made from the bytes 1, 2
  (\<open>o = 0\<close>, \<open>s = 2\<close>, \<open>c = 2\<close>) and \<open>n = 2 ^ 64 - 1\<close>, neither the front nor the space
  at the back suffices, and the argument of the resize wraps to 1: the store shrinks from
  2 bytes to 1 instead of growing to \<open>o + s + n\<close>, and the returned index 2 lies outside
  it.
\<close>

theorem acquire_wrap_counterexample:
  "unat (0 :: size_t) + unat (2 :: size_t) \<le> length [1 :: byte, 2]
   \<and> \<not> (18446744073709551615 :: size_t) \<le> 0
   \<and> \<not> unat (18446744073709551615 :: size_t) \<le> length [1 :: byte, 2] - unat (0 :: size_t) - unat (2 :: size_t)
   \<and> acquire \<lparr>m_buffer = [1, 2], m_size = 2, m_offset = 0, m_acquiredOffset = 0\<rparr>
         18446744073709551615 =
       Inr (\<lparr>m_buffer = [1], m_size = 2, m_offset = 0, m_acquiredOffset = 2\<rparr>, 2)
   \<and> length [1 :: byte] < length [1 :: byte, 2]
   \<and> length [1 :: byte] \<noteq> unat (0 :: size_t) + unat (2 :: size_t) + unat (18446744073709551615 :: size_t)"
  by (simp add: buffer_simps)

text \<open>
  C2, amended. For every buffer whose committed region (offset \<open>o\<close>, length \<open>s\<close>) is
  contained in its store of capacity \<open>c\<close>, the store holding at most \<open>max_size\<close> bytes as
  every vector does, and every request \<open>n\<close>: \<open>acquire(n)\<close> returns the start of the
  store and assigns nothing if \<open>o \<ge> n\<close>; otherwise it returns the index \<open>o + s\<close> just
  after the committed region if \<open>c - o - s \<ge> n\<close>; otherwise, if \<open>o + s + n\<close> is at most
  \<open>max_size\<close>, it grows the store by zero bytes to exactly \<open>o + s + n\<close> bytes and returns
  the index \<open>o + s\<close>; and if \<open>o + s + n\<close> exceeds \<open>max_size\<close> but fits a \<^verbatim>\<open>size_t\<close>,
  the resize throws \<^verbatim>\<open>std::length_error\<close> and no pointer is returned.
\<close>

theorem acquire_preference_order:
  assumes "length (m_buffer b) \<le> max_size"
    and "unat (m_offset b) + unat (m_size b) \<le> length (m_buffer b)"
  shows "(unat n \<le> unat (m_offset b) \<longrightarrow> acquire b n = Inr (b, 0))
   \<and> (unat (m_offset b) < unat n \<longrightarrow>
        unat n \<le> length (m_buffer b) - unat (m_offset b) - unat (m_size b) \<longrightarrow>
        acquire b n = Inr (b\<lparr>m_acquiredOffset := m_offset b + m_size b\<rparr>,
                           unat (m_offset b) + unat (m_size b)))
   \<and> (unat (m_offset b) < unat n \<longrightarrow>
        length (m_buffer b) - unat (m_offset b) - unat (m_size b) < unat n \<longrightarrow>
        unat (m_offset b) + unat (m_size b) + unat n \<le> max_size \<longrightarrow>
        acquire b n =
          Inr (b\<lparr>m_buffer := m_buffer b @ replicate (unat (m_offset b) + unat (m_size b) + unat n
                                                      - length (m_buffer b)) 0,
                  m_acquiredOffset := m_offset b + m_size b\<rparr>,
               unat (m_offset b) + unat (m_size b))
        \<and> length (m_buffer b @ replicate (unat (m_offset b) + unat (m_size b) + unat n
                                            - length (m_buffer b)) 0)
            = unat (m_offset b) + unat (m_size b) + unat n)
   \<and> (unat (m_offset b) < unat n \<longrightarrow>
        max_size < unat (m_offset b) + unat (m_size b) + unat n \<longrightarrow>
        unat (m_offset b) + unat (m_size b) + unat n < 2 ^ 64 \<longrightarrow>
        acquire b n = Inl length_error)"
proof -
  let ?O = "unat (m_offset b)" and ?S = "unat (m_size b)" and ?N = "unat n"
  have e: "unat (m_offset b + m_size b) = ?O + ?S"
    using assms max_size_less by (simp add: unat_end)
  have s: "unat (vector_size (m_buffer b) - m_offset b - m_size b)
           = length (m_buffer b) - ?O - ?S"
    using assms by (rule unat_sizeAtBack)
  have 1: "acquire b n = Inr (b, 0)" if "?N \<le> ?O"
    using that by (simp add: acquire_def word_le_nat_alt)
  have 2: "acquire b n = Inr (b\<lparr>m_acquiredOffset := m_offset b + m_size b\<rparr>, ?O + ?S)"
    if "?O < ?N" and "?N \<le> length (m_buffer b) - ?O - ?S"
    using that by (simp add: acquire_def Let_def word_le_nat_alt e s del: diff_diff_left)
  have 3: "acquire b n =
          Inr (b\<lparr>m_buffer := m_buffer b @ replicate (?O + ?S + ?N - length (m_buffer b)) 0,
                  m_acquiredOffset := m_offset b + m_size b\<rparr>, ?O + ?S)
        \<and> length (m_buffer b @ replicate (?O + ?S + ?N - length (m_buffer b)) 0) = ?O + ?S + ?N"
    if f: "?O < ?N" and g: "length (m_buffer b) - ?O - ?S < ?N" and m: "?O + ?S + ?N \<le> max_size"
  proof -
    have t: "unat (m_offset b + m_size b + n) = ?O + ?S + ?N"
      using m max_size_less by (intro unat_end3) simp
    have le: "length (m_buffer b) \<le> ?O + ?S + ?N" using g assms(2) by linarith
    have "vector_resize (m_buffer b) (m_offset b + m_size b + n) =
            Inr (m_buffer b @ replicate (?O + ?S + ?N - length (m_buffer b)) 0)"
      using le m t by (simp add: vector_resize_grow)
    then have "acquire b n =
          Inr (b\<lparr>m_buffer := m_buffer b @ replicate (?O + ?S + ?N - length (m_buffer b)) 0,
                  m_acquiredOffset := m_offset b + m_size b\<rparr>, ?O + ?S)"
      using f g by (simp add: acquire_def Let_def word_le_nat_alt e s del: diff_diff_left)
    then show ?thesis using le by simp
  qed
  have 4: "acquire b n = Inl length_error"
    if f: "?O < ?N" and m: "max_size < ?O + ?S + ?N" and v: "?O + ?S + ?N < 2 ^ 64"
  proof -
    have t: "unat (m_offset b + m_size b + n) = ?O + ?S + ?N"
      using v by (rule unat_end3)
    have g: "length (m_buffer b) - ?O - ?S < ?N" using m assms by linarith
    have "vector_resize (m_buffer b) (m_offset b + m_size b + n) = Inl length_error"
      using m t by (simp add: vector_resize_throws)
    then show ?thesis using f g
      by (simp add: acquire_def Let_def word_le_nat_alt s del: diff_diff_left)
  qed
  show ?thesis using 1 2 3 4 by blast
qed

theorem acquire_preference_order_witness:
  "length [1 :: byte, 2] \<le> max_size
   \<and> unat (0 :: size_t) + unat (2 :: size_t) \<le> length [1 :: byte, 2]
   \<and> unat (0 :: size_t) < unat (4 :: size_t)
   \<and> length [1 :: byte, 2] - unat (0 :: size_t) - unat (2 :: size_t) < unat (4 :: size_t)
   \<and> unat (0 :: size_t) + unat (2 :: size_t) + unat (4 :: size_t) \<le> max_size
   \<and> acquire \<lparr>m_buffer = [1, 2], m_size = 2, m_offset = 0, m_acquiredOffset = 0\<rparr> 4 =
       Inr (\<lparr>m_buffer = [1, 2, 0, 0, 0, 0], m_size = 2, m_offset = 0, m_acquiredOffset = 2\<rparr>, 2)"
  using acquire_preference_order
    [of "\<lparr>m_buffer = [1, 2], m_size = 2, m_offset = 0, m_acquiredOffset = 0\<rparr>" 4]
  by (simp add: max_size_def r4)

text \<open>
  C3 (frame property of acquire). As stated, for every state and every \<open>n\<close>, the claim
  fails where \<open>m_offset + m_size + n\<close> leaves \<^verbatim>\<open>size_t\<close>: for the buffer made from the
  bytes 1, 2 and \<open>n = 2 ^ 64 - 1\<close> the resize cuts the store to 1 byte, and the committed
  bytes 1, 2 read through \<open>data()\<close> before the call are the single byte 1 after it.
\<close>

theorem acquire_shrinks_committed_counterexample:
  "acquire_state \<lparr>m_buffer = [1, 2], m_size = 2, m_offset = 0, m_acquiredOffset = 0\<rparr>
       18446744073709551615 =
     \<lparr>m_buffer = [1], m_size = 2, m_offset = 0, m_acquiredOffset = 2\<rparr>
   \<and> committed \<lparr>m_buffer = [1, 2], m_size = 2, m_offset = 0, m_acquiredOffset = 0\<rparr> = [1, 2]
   \<and> committed \<lparr>m_buffer = [1], m_size = 2, m_offset = 0, m_acquiredOffset = 2\<rparr> = [1]"
  by (simp add: buffer_simps)

text \<open>
  C3, amended. For every state and every \<open>n\<close>, a call of \<open>acquire(n)\<close>, whether it
  returns or throws, leaves \<open>size()\<close> and the position \<open>data()\<close> points to unchanged
  and changes no byte that the store holds before and after the call. When the store holds
  at most \<open>max_size\<close> bytes, as every vector does, and \<open>m_offset + m_size + n\<close> fits a
  \<^verbatim>\<open>size_t\<close>, the committed bytes read through \<open>data()\<close> are the same before and after
  the call. \<open>commit\<close> is the operation that assigns the visible size and offset.
\<close>

theorem acquire_frame:
  "size_Buffer (acquire_state b n) = size_Buffer b
   \<and> data (acquire_state b n) = data b
   \<and> (\<forall>i. i < length (m_buffer b) \<longrightarrow> i < length (m_buffer (acquire_state b n)) \<longrightarrow>
          m_buffer (acquire_state b n) ! i = m_buffer b ! i)
   \<and> (length (m_buffer b) \<le> max_size \<longrightarrow>
      unat (m_offset b) + unat (m_size b) + unat n < 2 ^ 64 \<longrightarrow>
      committed (acquire_state b n) = committed b)
   \<and> size_Buffer (commit b k) = k
   \<and> data (commit b k) = unat (m_acquiredOffset b)"
proof -
  have 1: "size_Buffer (acquire_state b n) = size_Buffer b"
    by (cases rule: acquire_cases [of b n]) (simp_all add: size_Buffer_def)
  have 2: "data (acquire_state b n) = data b"
    by (cases rule: acquire_cases [of b n]) (simp_all add: data_def)
  have 3: "\<forall>i. i < length (m_buffer b) \<longrightarrow> i < length (m_buffer (acquire_state b n)) \<longrightarrow>
             m_buffer (acquire_state b n) ! i = m_buffer b ! i"
    by (simp add: acquire_keeps_bytes)
  have 4: "committed (acquire_state b n) = committed b"
    if "length (m_buffer b) \<le> max_size"
      and "unat (m_offset b) + unat (m_size b) + unat n < 2 ^ 64"
    using that by (rule acquire_keeps_committed)
  have 5: "size_Buffer (commit b k) = k" by (simp add: commit_def size_Buffer_def)
  have 6: "data (commit b k) = unat (m_acquiredOffset b)" by (simp add: commit_def data_def)
  show ?thesis using 1 2 3 4 5 6 by blast
qed

theorem acquire_frame_witness:
  "length [1 :: byte, 2] \<le> max_size
   \<and> unat (0 :: size_t) + unat (2 :: size_t) + unat (4 :: size_t) < 2 ^ 64
   \<and> committed (acquire_state
        \<lparr>m_buffer = [1, 2], m_size = 2, m_offset = 0, m_acquiredOffset = 0\<rparr> 4) =
      committed \<lparr>m_buffer = [1, 2], m_size = 2, m_offset = 0, m_acquiredOffset = 0\<rparr>"
  using acquire_frame
    [of "\<lparr>m_buffer = [1, 2], m_size = 2, m_offset = 0, m_acquiredOffset = 0\<rparr>" 4 0]
  by (simp add: max_size_def)

text \<open>
  C4 (containment invariant). As stated, for every sequence of constructor, acquire and
  commit calls, the claim fails: \<open>commit\<close> stores its argument unchecked, so
  \<^verbatim>\<open>Buffer(0)\<close>, \<open>acquire(1)\<close>, \<open>commit(2)\<close> leaves a committed size of 2 in a store of
  1 byte.
\<close>

theorem commit_unchecked_counterexample:
  "Buffer_new 0 = Inr \<lparr>m_buffer = [], m_size = 0, m_offset = 0, m_acquiredOffset = 0\<rparr>
   \<and> \<not> contained (run \<lparr>m_buffer = [], m_size = 0, m_offset = 0, m_acquiredOffset = 0\<rparr>
         [Acquire 1, Commit 2])"
  by (simp add: buffer_simps)

text \<open>
  C4, amended. Take a buffer built by either constructor and then driven by a sequence of
  acquire and commit calls such that (1) every \<open>acquire(m)\<close> of the sequence that does not
  take the front (\<open>m\<close> exceeds \<open>m_offset\<close> at the call) has \<open>m_offset + m_size + m\<close>
  within \<^verbatim>\<open>size_t\<close>, and (2) every \<open>commit(n)\<close> of the sequence directly follows an
  \<open>acquire(m)\<close> that did not take the front and did not throw, with \<open>n \<le> m\<close>. Then the
  committed region is contained in the store: \<open>m_offset + m_size\<close> is at most the
  store's size.
\<close>

theorem containment_of_disciplined_use:
  assumes "Buffer_new sz = Inr b0 \<or> Buffer_from src sz r = Inr b0"
    and "well_used b0 None ops"
  shows "contained (run b0 ops)"
proof -
  have "buffer_inv b0 None" using assms(1) buffer_inv_new buffer_inv_from by blast
  then have "\<exists>p. buffer_inv (run b0 ops) p" using assms(2) by (rule well_used_preserves)
  then show ?thesis by (auto simp: buffer_inv_def)
qed

theorem containment_of_disciplined_use_witness:
  "Buffer_new 2 = Inr \<lparr>m_buffer = [0, 0], m_size = 0, m_offset = 0, m_acquiredOffset = 0\<rparr>
   \<and> well_used \<lparr>m_buffer = [0, 0], m_size = 0, m_offset = 0, m_acquiredOffset = 0\<rparr> None
        [Acquire 3, Commit 3, Acquire 1, Acquire 4, Commit 2]
   \<and> contained (run \<lparr>m_buffer = [0, 0], m_size = 0, m_offset = 0, m_acquiredOffset = 0\<rparr>
        [Acquire 3, Commit 3, Acquire 1, Acquire 4, Commit 2])"
proof -
  have n: "Buffer_new 2 = Inr \<lparr>m_buffer = [0, 0], m_size = 0, m_offset = 0, m_acquiredOffset = 0\<rparr>"
    by (simp add: Buffer_new_def vector_resize_def max_size_def r2)
  have w: "well_used \<lparr>m_buffer = [0, 0], m_size = 0, m_offset = 0, m_acquiredOffset = 0\<rparr> None
        [Acquire 3, Commit 3, Acquire 1, Acquire 4, Commit 2]"
    by (simp add: buffer_simps word_le_nat_alt)
  show ?thesis using n w containment_of_disciplined_use [OF disjI1 [OF n] w] by simp
qed

section \<open>Properties of split\<close>

lemma less_ceil_div_iff:
  assumes "0 < c"
  shows "k < ceil_div a c \<longleftrightarrow> k * c < a"
proof -
  have "k < ceil_div a c \<longleftrightarrow> Suc k \<le> (a + c - 1) div c"
    by (simp add: ceil_div_def Suc_le_eq)
  also have "\<dots> \<longleftrightarrow> Suc k * c \<le> a + c - 1"
    using assms by (simp add: less_eq_div_iff_mult_less_eq)
  also have "\<dots> \<longleftrightarrow> k * c < a"
    using assms by auto
  finally show ?thesis .
qed

lemma ceil_div_mult_ge:
  assumes "0 < c"
  shows "a \<le> ceil_div a c * c"
  using less_ceil_div_iff [OF assms, of "ceil_div a c" a] by simp

lemma ceil_div_mult_bound:
  assumes "0 < c" and "c < 2 ^ 64" and "a \<le> 2 ^ 63"
  shows "ceil_div a c * c < (2 :: nat) ^ 64"
proof (cases "c \<le> 2 ^ 63")
  case True
  have "ceil_div a c * c \<le> a + c - 1"
    by (simp add: ceil_div_def)
  also have "\<dots> < 2 ^ 64" using True assms by simp
  finally show ?thesis .
next
  case False
  then have "a < c" using assms(3) by simp
  then have "\<not> 1 * c < a" by simp
  then have "\<not> 1 < ceil_div a c"
    using less_ceil_div_iff [OF assms(1), of 1 a] by simp
  then have "ceil_div a c = 0 \<or> ceil_div a c = 1" by auto
  then have "ceil_div a c * c \<le> c" by auto
  then show ?thesis using assms(2) by linarith
qed

lemma ceil_div_dvd:
  assumes "0 < c" and "c dvd a"
  shows "ceil_div a c = a div c"
proof -
  obtain q where a: "a = q * c" using assms(2) by (metis dvd_div_mult_self)
  have "k < ceil_div a c \<longleftrightarrow> k < q" for k
    using less_ceil_div_iff [OF assms(1), of k a] assms(1) by (simp add: a)
  then have "ceil_div a c = q"
    by (metis less_irrefl_nat linorder_neqE_nat)
  then show ?thesis using assms(1) by (simp add: a)
qed

lemma split_loop_from:
  fixes c :: size_t
  assumes c0: "0 < unat c"
    and bound: "ceil_div (unat (m_size b)) (unat c) * unat c < 2 ^ 64"
    and ok: "\<forall>j < ceil_div (unat (m_size b)) (unat c).
               T (unat (m_offset b) + j * unat c) c = Inr (mk j)"
    and k: "k \<le> ceil_div (unat (m_size b)) (unat c)"
    and i: "unat i = k * unat c"
  shows "split_loop T b c i acc =
           Some (Inr (acc @ map mk [k ..< ceil_div (unat (m_size b)) (unat c)]))"
  using k i
proof (induction "ceil_div (unat (m_size b)) (unat c) - k" arbitrary: k i acc)
  case 0
  then have eq: "k = ceil_div (unat (m_size b)) (unat c)" by simp
  have "\<not> k * unat c < unat (m_size b)"
    using less_ceil_div_iff [OF c0, of k "unat (m_size b)"] eq by simp
  then have "\<not> i < m_size b"
    using "0.prems"(2) by (simp add: word_less_nat_alt)
  then show ?case using eq
    by (subst split_loop.simps) simp
next
  case (Suc d)
  then have klt: "k < ceil_div (unat (m_size b)) (unat c)" by simp
  have "Suc k * unat c \<le> ceil_div (unat (m_size b)) (unat c) * unat c"
    using klt by (intro mult_le_mono1) simp
  then have lt: "unat i + unat c < 2 ^ 64" using bound Suc.prems(2) by simp
  have next_i: "unat (i + c) = Suc k * unat c"
    using lt Suc.prems(2) by (simp add: unat_add_lem [THEN iffD1])
  have "k * unat c < unat (m_size b)"
    using less_ceil_div_iff [OF c0, of k "unat (m_size b)"] klt by simp
  then have cond: "i < m_size b"
    using Suc.prems(2) by (simp add: word_less_nat_alt)
  have built: "T (unat (m_offset b) + unat i) c = Inr (mk k)"
    using ok klt Suc.prems(2) by simp
  have ih: "split_loop T b c (i + c) (acc @ [mk k]) =
            Some (Inr ((acc @ [mk k]) @ map mk [Suc k ..< ceil_div (unat (m_size b)) (unat c)]))"
    using Suc.hyps(2) klt next_i by (intro Suc.hyps(1)) auto
  have "split_loop T b c i acc = split_loop T b c (i + c) (acc @ [mk k])"
    using cond built by (subst split_loop.simps) simp
  then show ?case using ih klt
    by (simp add: upt_conv_Cons)
qed

lemma split_eq:
  fixes c :: size_t
  assumes "0 < unat c"
    and "ceil_div (unat (m_size b)) (unat c) * unat c < 2 ^ 64"
    and "\<forall>j < ceil_div (unat (m_size b)) (unat c).
           T (unat (m_offset b) + j * unat c) c = Inr (mk j)"
  shows "split T b c = Some (Inr (map mk [0 ..< ceil_div (unat (m_size b)) (unat c)]))"
  using assms split_loop_from [where c = c and b = b and T = T and mk = mk and k = 0 and i = 0
      and acc = "[]"]
  by (simp add: split_def)

lemma AudioBuffer_in_store:
  assumes "p + unat c \<le> length mem" and "unat c \<le> max_size"
  shows "AudioBuffer mem p c =
           Inr \<lparr>m_buffer = take (unat c) (drop p mem), m_size = c, m_offset = 0,
                m_acquiredOffset = 0\<rparr>"
proof -
  have "max c 0 = c" by (simp add: max_def)
  then show ?thesis using assms
    by (simp add: AudioBuffer_def Buffer_from_def vector_resize_def)
qed

lemma concat_chunks:
  "concat (map (\<lambda>j. take c (drop (off + j * c) xs)) [0 ..< n]) = take (n * c) (drop off xs)"
proof (induction n)
  case 0
  then show ?case by simp
next
  case (Suc n)
  have "take (n * c + c) (drop off xs) =
          take (n * c) (drop off xs) @ take c (drop (n * c) (drop off xs))"
    by (rule take_add)
  moreover have "Suc n * c = n * c + c" by simp
  moreover have "drop (n * c) (drop off xs) = drop (off + n * c) xs"
    by (simp add: add.commute)
  ultimately have "take (Suc n * c) (drop off xs) =
          take (n * c) (drop off xs) @ take c (drop (off + n * c) xs)"
    by (simp only:)
  then show ?case using Suc.IH
    by (simp only: upt_Suc_append [OF le0] map_append concat_append list.map concat.simps
        append_Nil2)
qed


text \<open>
  A chunk whose bytes would end behind the store is not built: the read leaves the store.
\<close>

lemma split_chunk_outside_store:
  "split_AudioBuffer
     \<lparr>m_buffer = [1, 2, 3], m_size = 3, m_offset = 0, m_acquiredOffset = 0\<rparr> 2 =
   Some (Inl out_of_bounds)"
  unfolding split_AudioBuffer_def split_def
  apply (subst split_loop.simps, simp add: AudioBuffer_def Buffer_from_def vector_resize_def max_size_def)
  apply (subst split_loop.simps, simp add: AudioBuffer_def Buffer_from_def vector_resize_def max_size_def)
  done

text \<open>
  C8 (split reproduces the committed bytes). As stated the claim fails when the chunk size
  does not divide the committed size: every chunk is built with the full chunk size, so the
  last one takes bytes from behind the committed region. For the buffer made from the bytes
  1, 2, 3 with 4 bytes reserved, \<open>split(2)\<close> yields the chunks 1, 2 and 3, 0, whose
  concatenation has four bytes while three are committed.
\<close>

theorem split_partial_chunk_counterexample:
  "Buffer_from [1, 2, 3] 3 4 =
     Inr \<lparr>m_buffer = [1, 2, 3, 0], m_size = 3, m_offset = 0, m_acquiredOffset = 0\<rparr>
   \<and> split_AudioBuffer
        \<lparr>m_buffer = [1, 2, 3, 0], m_size = 3, m_offset = 0, m_acquiredOffset = 0\<rparr> 2 =
      Some (Inr [\<lparr>m_buffer = [1, 2], m_size = 2, m_offset = 0, m_acquiredOffset = 0\<rparr>,
                 \<lparr>m_buffer = [3, 0], m_size = 2, m_offset = 0, m_acquiredOffset = 0\<rparr>])
   \<and> concat (map committed
        [\<lparr>m_buffer = [1, 2], m_size = 2, m_offset = 0, m_acquiredOffset = 0\<rparr>,
         \<lparr>m_buffer = [3, 0], m_size = 2, m_offset = 0, m_acquiredOffset = 0\<rparr>])
      \<noteq> committed \<lparr>m_buffer = [1, 2, 3, 0], m_size = 3, m_offset = 0, m_acquiredOffset = 0\<rparr>"
proof -
  have 1: "Buffer_from [1, 2, 3] 3 4 =
     Inr \<lparr>m_buffer = [1, 2, 3, 0], m_size = 3, m_offset = 0, m_acquiredOffset = 0\<rparr>"
    by (simp add: Buffer_from_def vector_resize_def max_size_def r4)
  have 2: "split_AudioBuffer
        \<lparr>m_buffer = [1, 2, 3, 0], m_size = 3, m_offset = 0, m_acquiredOffset = 0\<rparr> 2 =
      Some (Inr [\<lparr>m_buffer = [1, 2], m_size = 2, m_offset = 0, m_acquiredOffset = 0\<rparr>,
                 \<lparr>m_buffer = [3, 0], m_size = 2, m_offset = 0, m_acquiredOffset = 0\<rparr>])"
    unfolding split_AudioBuffer_def split_def
    apply (subst split_loop.simps, simp add: AudioBuffer_def Buffer_from_def vector_resize_def max_size_def)
    apply (subst split_loop.simps, simp add: AudioBuffer_def Buffer_from_def vector_resize_def max_size_def)
    apply (subst split_loop.simps, simp)
    done
  have 3: "concat (map committed
        [\<lparr>m_buffer = [1, 2], m_size = 2, m_offset = 0, m_acquiredOffset = 0\<rparr>,
         \<lparr>m_buffer = [3, 0], m_size = 2, m_offset = 0, m_acquiredOffset = 0\<rparr>])
      \<noteq> committed \<lparr>m_buffer = [1, 2, 3, 0], m_size = 3, m_offset = 0, m_acquiredOffset = 0\<rparr>"
    by (simp add: committed_def data_def size_Buffer_def)
  show ?thesis using 1 2 3 by blast
qed

text \<open>
  C8, amended. Let \<open>S\<close> be the committed size, \<open>c > 0\<close> the chunk size and \<open>k\<close> the
  quotient \<open>S / c\<close> rounded up. For every buffer whose store, of at most \<open>max_size\<close> bytes
  as every vector's, holds the \<open>k * c\<close> bytes that start at the committed offset,
  \<open>split(c)\<close> returns exactly \<open>k\<close> chunks of size \<open>c\<close>; the first \<open>S\<close> bytes of the
  concatenation of the chunks' bytes are the committed byte sequence, and when \<open>c\<close>
  divides \<open>S\<close> the concatenation is exactly the committed byte sequence.
\<close>

theorem split_concat_committed:
  fixes c :: size_t
  assumes "0 < c"
    and "length (m_buffer b) \<le> max_size"
    and "unat (m_offset b) + ceil_div (unat (m_size b)) (unat c) * unat c \<le> length (m_buffer b)"
  shows "\<exists>chunks. split_AudioBuffer b c = Some (Inr chunks)
           \<and> length chunks = ceil_div (unat (m_size b)) (unat c)
           \<and> (\<forall>x \<in> set chunks. size_Buffer x = c)
           \<and> take (unat (m_size b)) (concat (map committed chunks)) = committed b
           \<and> (unat c dvd unat (m_size b) \<longrightarrow> concat (map committed chunks) = committed b)"
proof -
  let ?C = "unat c" and ?S = "unat (m_size b)" and ?O = "unat (m_offset b)"
  let ?n = "ceil_div ?S ?C"
  let ?mk = "\<lambda>j. \<lparr>m_buffer = take ?C (drop (?O + j * ?C) (m_buffer b)), m_size = c,
                   m_offset = 0, m_acquiredOffset = 0\<rparr>"
  let ?chunks = "map ?mk [0 ..< ?n]"
  have c0: "0 < ?C" using assms(1) by (simp add: word_less_nat_alt)
  have bound: "?n * ?C < 2 ^ 64"
    using assms(2,3) max_size_less by linarith
  have inb: "?O + j * ?C + ?C \<le> length (m_buffer b) \<and> ?C \<le> max_size" if "j < ?n" for j
  proof -
    have "Suc j * ?C \<le> ?n * ?C" using that by (intro mult_le_mono1) simp
    then have "j * ?C + ?C \<le> ?n * ?C" by simp
    then show ?thesis using assms(2,3) by linarith
  qed
  have ok: "\<forall>j < ?n. AudioBuffer (m_buffer b) (?O + j * ?C) c = Inr (?mk j)"
    using inb by (simp add: AudioBuffer_in_store)
  have 1: "split_AudioBuffer b c = Some (Inr ?chunks)"
    unfolding split_AudioBuffer_def using c0 bound ok by (rule split_eq)
  have 2: "length ?chunks = ?n" by simp
  have 3: "\<forall>x \<in> set ?chunks. size_Buffer x = c"
    by (auto simp: size_Buffer_def)
  have "map committed ?chunks = map (\<lambda>j. take ?C (drop (?O + j * ?C) (m_buffer b))) [0 ..< ?n]"
    by (simp add: committed_def data_def size_Buffer_def)
  then have cc: "concat (map committed ?chunks) = take (?n * ?C) (drop ?O (m_buffer b))"
    by (simp only: concat_chunks)
  have ge: "?S \<le> ?n * ?C" using c0 by (rule ceil_div_mult_ge)
  have "take ?S (concat (map committed ?chunks)) = take ?S (take (?n * ?C) (drop ?O (m_buffer b)))"
    by (simp only: cc)
  then have 4: "take ?S (concat (map committed ?chunks)) = committed b"
    using ge by (simp only: take_take min_absorb1 committed_def data_def size_Buffer_def)
  have 5: "concat (map committed ?chunks) = committed b" if d: "?C dvd ?S"
  proof -
    have "?n * ?C = ?S" using ceil_div_dvd [OF c0 d] d by simp
    then show ?thesis by (simp only: cc committed_def data_def size_Buffer_def)
  qed
  show ?thesis using 1 2 3 4 5 by blast
qed

theorem split_concat_committed_witness:
  "(0 :: size_t) < 2 \<and> length [1 :: byte, 2, 3, 4] \<le> max_size
   \<and> unat (0 :: size_t) + ceil_div (unat (4 :: size_t)) (unat (2 :: size_t)) * unat (2 :: size_t)
       \<le> length [1 :: byte, 2, 3, 4]
   \<and> unat (2 :: size_t) dvd unat (4 :: size_t)
   \<and> (\<exists>chunks.
         split_AudioBuffer
           \<lparr>m_buffer = [1, 2, 3, 4], m_size = 4, m_offset = 0, m_acquiredOffset = 0\<rparr> 2 =
           Some (Inr chunks)
         \<and> length chunks = 2
         \<and> (\<forall>x \<in> set chunks. size_Buffer x = 2)
         \<and> concat (map committed chunks) = [1, 2, 3, 4])"
proof -
  have n: "ceil_div 4 2 = 2" by (simp add: ceil_div_def)
  show ?thesis
    using split_concat_committed
      [of 2 "\<lparr>m_buffer = [1, 2, 3, 4], m_size = 4, m_offset = 0, m_acquiredOffset = 0\<rparr>"]
    by (simp add: committed_def data_def size_Buffer_def n max_size_def) blast
qed




section \<open>Properties of canIntersect and link\<close>

lemma canIntersect_row_iff:
  "canIntersect_row intersect isValid i outs \<longleftrightarrow> (\<exists>out \<in> set outs. isValid (intersect i out))"
  by (induction outs) auto

lemma canIntersect_iff:
  "canIntersect intersect isValid ins outs \<longleftrightarrow>
     (\<exists>i \<in> set ins. \<exists>out \<in> set outs. isValid (intersect i out))"
  by (induction ins) (auto simp: canIntersect_row_iff)

lemma upto_first_append:
  "upto_first P (xs @ ys) =
     (if \<exists>x \<in> set xs. P x then upto_first P xs else xs @ upto_first P ys)"
  by (induction xs) auto

lemma row_calls_eq:
  "row_calls intersect isValid i outs =
     upto_first (\<lambda>(a, b). isValid (intersect a b)) (map (Pair i) outs)"
  by (induction outs) auto

lemma row_found_iff:
  "(\<exists>x \<in> set (map (Pair i) outs). (\<lambda>(a, b). isValid (intersect a b)) x)
     \<longleftrightarrow> canIntersect_row intersect isValid i outs"
  by (auto simp: canIntersect_row_iff)

lemma canIntersect_calls_eq:
  "canIntersect_calls intersect isValid ins outs =
     upto_first (\<lambda>(a, b). isValid (intersect a b)) (List.product ins outs)"
proof (induction ins)
  case Nil
  then show ?case by simp
next
  case (Cons i ins)
  let ?P = "\<lambda>(a, b). isValid (intersect a b)"
  have "upto_first ?P (List.product (i # ins) outs) =
          (if canIntersect_row intersect isValid i outs
           then upto_first ?P (map (Pair i) outs)
           else map (Pair i) outs @ upto_first ?P (List.product ins outs))"
    by (simp only: List.product.simps upto_first_append row_found_iff)
  moreover have "upto_first ?P (map (Pair i) outs) = map (Pair i) outs"
    if "\<not> canIntersect_row intersect isValid i outs"
    using that upto_first_append [of ?P "map (Pair i) outs" "[]"]
    by (simp only: row_found_iff if_False upto_first.simps append_Nil2)
  ultimately show ?case using Cons.IH
    by (simp add: row_calls_eq)
qed

text \<open>
  C5 (canIntersect is symmetric). If the pairwise intersection is symmetric,
  \<open>intersect a b = intersect b a\<close> for all capabilities, then
  \<open>canIntersect A B = canIntersect B A\<close> for all capability sets \<open>A\<close> and \<open>B\<close>.
\<close>

theorem canIntersect_symmetric:
  assumes "\<forall>a b. intersect a b = intersect b a"
  shows "canIntersect intersect isValid A B = canIntersect intersect isValid B A"
proof -
  have "(\<exists>i \<in> set A. \<exists>out \<in> set B. isValid (intersect i out))
        \<longleftrightarrow> (\<exists>i \<in> set B. \<exists>out \<in> set A. isValid (intersect i out))"
    using assms by metis
  then show ?thesis by (simp only: canIntersect_iff)
qed

theorem canIntersect_symmetric_witness:
  "(\<forall>a b :: nat. min a b = min b a)
   \<and> canIntersect min (\<lambda>x :: nat. 2 < x) [1, 5] [2, 3, 4]
     = canIntersect min (\<lambda>x :: nat. 2 < x) [2, 3, 4] [1, 5]"
proof -
  have h: "\<forall>a b :: nat. min a b = min b a" by (simp add: min.commute)
  show ?thesis using h canIntersect_symmetric [OF h] by blast
qed

text \<open>
  C6 (existence semantics of canIntersect). \<open>canIntersect A B\<close> is true exactly when some
  \<open>a\<close> in \<open>A\<close> and \<open>b\<close> in \<open>B\<close> have a valid intersection; the pairs handed to
  \<open>intersect\<close> are the pairs of \<open>A\<close> and \<open>B\<close> in declaration order (all of \<open>B\<close> for the
  first element of \<open>A\<close>, then for the second, ...) up to and including the first pair with
  a valid intersection, which ends the search.
\<close>

theorem canIntersect_first_pair:
  "(canIntersect intersect isValid A B \<longleftrightarrow>
      (\<exists>a \<in> set A. \<exists>b \<in> set B. isValid (intersect a b)))
   \<and> canIntersect_calls intersect isValid A B =
       upto_first (\<lambda>(a, b). isValid (intersect a b)) (List.product A B)"
  by (simp add: canIntersect_iff canIntersect_calls_eq)

theorem canIntersect_first_pair_witness:
  "canIntersect min (\<lambda>x :: nat. 2 < x) [1, 5] [2, 3, 4]
   \<and> canIntersect_calls min (\<lambda>x :: nat. 2 < x) [1, 5] [2, 3, 4]
     = [(1, 2), (1, 3), (1, 4), (5, 2), (5, 3)]"
  using canIntersect_first_pair [of min "\<lambda>x :: nat. 2 < x" "[1, 5]" "[2, 3, 4]"]
  by simp

text \<open>
  C7 (linking gate and effect). \<open>link prev next\<close> exists only when
  \<open>canIntersect\<close> holds of the output capabilities of \<open>prev\<close> and the input capabilities
  of \<open>next\<close>, and then its whole effect on the store of nodes is that the \<open>m_next\<close> of
  \<open>prev\<close> becomes the address of \<open>next\<close>: every other node, and every other field of
  \<open>prev\<close>, is as before.
\<close>

theorem link_gate_and_effect:
  "link intersect isValid h prev nxt = Some h' \<longleftrightarrow>
     (\<exists>p n. h prev = Some p \<and> h nxt = Some n
        \<and> canIntersect intersect isValid (outCaps p) (inCaps n)
        \<and> h' = h(prev \<mapsto> p\<lparr>m_next := Some nxt\<rparr>))"
  by (auto simp: link_def split: option.splits)

theorem link_gate_and_effect_witness:
  "link min (\<lambda>x :: nat. 2 < x)
     ((\<lambda>a. None)(0 \<mapsto> \<lparr>outCaps = [1, 5], inCaps = [], m_next = None\<rparr>,
                  1 \<mapsto> \<lparr>outCaps = [], inCaps = [2, 3, 4], m_next = None\<rparr>)) 0 1
   = Some ((\<lambda>a. None)(0 \<mapsto> \<lparr>outCaps = [1, 5], inCaps = [], m_next = Some 1\<rparr>,
                       1 \<mapsto> \<lparr>outCaps = [], inCaps = [2, 3, 4], m_next = None\<rparr>))"
  using link_gate_and_effect [of min "\<lambda>x :: nat. 2 < x"
      "(\<lambda>a. None)(0 \<mapsto> \<lparr>outCaps = [1, 5], inCaps = [], m_next = None\<rparr>,
                   1 \<mapsto> \<lparr>outCaps = [], inCaps = [2, 3, 4], m_next = None\<rparr>)" 0 1
      "(\<lambda>a. None)(0 \<mapsto> \<lparr>outCaps = [1, 5], inCaps = [], m_next = Some 1\<rparr>,
                   1 \<mapsto> \<lparr>outCaps = [], inCaps = [2, 3, 4], m_next = None\<rparr>)"]
  by (simp add: fun_upd_twist)

section \<open>Properties of AlsaSink\<close>

text \<open>
  C9 (stop is idempotent). For every state of the sink, a second \<open>onStop\<close> leaves the
  state that the first one produced: the first call has set the device handle to null, so
  the second makes no call into ALSA and only repeats the log line.
\<close>

theorem onStop_idempotent:
  "fst (onStop (fst (onStop s))) = fst (onStop s)
   \<and> m_pcm (fst (onStop s)) = None
   \<and> snd (onStop (fst (onStop s))) = [LOG_F INFO ''Device flushed'']"
  by (simp add: onStop_def split: option.splits)

end
